theory Spec2Isabelle
  imports Main
begin

section \<open>The scraper: data\<close>

text \<open>
  The scraper module (the second document of \<^verbatim>\<open>transformer.ts\<close>) pages through the Jira
  search API, one project after another. Its module-level variables are \<^verbatim>\<open>progress\<close>
  and \<^verbatim>\<open>lastRequestTime\<close>; it reads and writes \<^verbatim>\<open>progress.json\<close> and one raw file per
  project. Issues are values of type \<^verbatim>\<open>any\<close> for the scraper: here a type variable.
\<close>

text \<open>
  The body of a response as the code reads it: \<^verbatim>\<open>!resp.data\<close> holds for an absent or empty
  body; otherwise the code reads only \<^verbatim>\<open>data.issues\<close>, which is absent or an array.
\<close>

datatype 'i body = Falsy | Json "'i list option"

text \<open>
  What \<^verbatim>\<open>axios.get\<close> meets on the wire: a response with its status, its
  \<^verbatim>\<open>retry-after\<close> header and its body, or no response at all (then \<^verbatim>\<open>error.code\<close> is set).
\<close>

datatype 'i http_result =
    Response nat "string option" "'i body"
  | NoResponse string

text \<open>The request URL varies only in the project and in \<^verbatim>\<open>startAt\<close>.\<close>

datatype url = Url string nat

text \<open>
  The remote service and the network: the answer to the n-th request on the wire, with
  the time in milliseconds that the request takes.
\<close>

type_synonym 'i server = "nat \<Rightarrow> url \<Rightarrow> nat \<times> 'i http_result"

text \<open>The errors thrown inside \<^verbatim>\<open>fetchPageWithRetry\<close>, and at start-up by \<^verbatim>\<open>JSON.parse\<close>.\<close>

datatype error =
    RateLimited
  | ServerError nat
  | EmptyResponse
  | NetworkError string
  | AxiosBadStatus nat
  | AxiosOther string
  | SyntaxError

record progress_entry =
  lastStartAt :: nat

type_synonym progress_obj = "string \<rightharpoonup> progress_entry"

text \<open>
  The text of \<^verbatim>\<open>progress.json\<close>: either what \<^verbatim>\<open>JSON.stringify\<close> writes for a progress
  object, or text that \<^verbatim>\<open>JSON.parse\<close> rejects.
\<close>

datatype file_text = Json_of progress_obj | Not_json

fun JSON_parse :: "file_text \<Rightarrow> error + progress_obj" where
  "JSON_parse (Json_of m) = Inr m"
| "JSON_parse Not_json = Inl SyntaxError"

definition JSON_stringify :: "progress_obj \<Rightarrow> file_text" where
  "JSON_stringify m = Json_of m"

text \<open>One HTTP exchange, as an observer on the wire sees it.\<close>

record 'i exchange =
  issued :: int
  target :: url
  received :: int
  result :: "'i http_result"

text \<open>
  The state: the module's variables (\<open>progress\<close>, \<open>lastRequestTime\<close>), the clock
  (\<^verbatim>\<open>Date.now()\<close>, in milliseconds), the two kinds of files, and two logs that no branch
  of the program reads and that no restart clears: the exchanges on the wire, in order,
  and the snapshots written to \<^verbatim>\<open>progress.json\<close>, in order, each with the number of
  exchanges completed when it was written.
\<close>

record 'i world =
  clock :: int
  lastRequestTime :: int
  progress :: progress_obj
  progress_file :: "file_text option"
  raw_files :: "string \<rightharpoonup> 'i list"
  wire :: "'i exchange list"
  writes :: "(nat \<times> progress_obj) list"

record config =
  PROJECTS :: "string list"
  MAX_ISSUES :: "int option"
  PER_PROJECT_LIMITS :: "(string \<rightharpoonup> int) option"

section \<open>Loading the progress\<close>

text \<open>
  \<^verbatim>\<open>let progress = {}; if (fs.existsSync(PROGRESS_FILE)) progress = JSON.parse(...)\<close>:
  there is no handler around the parse, so its exception ends the process.
\<close>

definition load_progress :: "file_text option \<Rightarrow> error + progress_obj" where
  "load_progress f = (case f of None \<Rightarrow> Inr Map.empty | Some t \<Rightarrow> JSON_parse t)"

text \<open>The start of a process: the module's variables are initialised.\<close>

definition startup :: "'i world \<Rightarrow> error + 'i world" where
  "startup w =
     (case load_progress (progress_file w) of
        Inl e \<Rightarrow> Inl e
      | Inr m \<Rightarrow> Inr (w\<lparr>progress := m, lastRequestTime := 0\<rparr>))"

text \<open>\<^verbatim>\<open>progress[project]?.lastStartAt || 0\<close>\<close>

definition cursor :: "progress_obj \<Rightarrow> string \<Rightarrow> nat" where
  "cursor m project = (case m project of None \<Rightarrow> 0 | Some e \<Rightarrow> lastStartAt e)"

section \<open>Rate limiting and one attempt\<close>

definition MIN_REQUEST_INTERVAL :: int where
  "MIN_REQUEST_INTERVAL = 200"

text \<open>
  \<^verbatim>\<open>delay(ms)\<close> resumes after \<open>ms\<close> milliseconds; a timer set to a negative time or to
  NaN (\<open>None\<close>) fires at once.
\<close>

definition delay :: "int option \<Rightarrow> 'i world \<Rightarrow> 'i world" where
  "delay ms w = (case ms of None \<Rightarrow> w | Some t \<Rightarrow> w\<lparr>clock := clock w + max 0 t\<rparr>)"

definition rate_limit :: "'i world \<Rightarrow> 'i world" where
  "rate_limit w =
     (let now = clock w;
          timeSinceLastRequest = now - lastRequestTime w;
          w1 = (if timeSinceLastRequest < MIN_REQUEST_INTERVAL
                then delay (Some (MIN_REQUEST_INTERVAL - timeSinceLastRequest)) w
                else w)
      in w1\<lparr>lastRequestTime := clock w1\<rparr>)"

definition validateStatus :: "nat \<Rightarrow> bool" where
  "validateStatus status = (status < 500 \<or> status = 429)"

text \<open>\<^verbatim>\<open>parseInt(s, 10)\<close>: leading white space, a sign, then decimal digits; NaN without a digit.\<close>

definition is_digit :: "char \<Rightarrow> bool" where
  "is_digit c = (c \<in> set ''0123456789'')"

definition is_space :: "char \<Rightarrow> bool" where
  "is_space c = (c \<in> {CHR '' '', CHR 0x09, CHR 0x0A, CHR 0x0B, CHR 0x0C, CHR 0x0D})"

definition digit_val :: "char \<Rightarrow> nat" where
  "digit_val c = of_char c - 48"

definition digits_val :: "string \<Rightarrow> nat" where
  "digits_val ds = foldl (\<lambda>a c. 10 * a + digit_val c) 0 ds"

definition parseInt :: "string \<Rightarrow> int option" where
  "parseInt s =
     (let t = dropWhile is_space s;
          neg = (case t of [] \<Rightarrow> False | c # _ \<Rightarrow> c = CHR ''-'');
          u = (case t of [] \<Rightarrow> [] | c # r \<Rightarrow> if c = CHR ''-'' \<or> c = CHR ''+'' then r else t);
          ds = takeWhile is_digit u
      in if ds = [] then None
         else Some (if neg then - int (digits_val ds) else int (digits_val ds)))"

text \<open>
  \<^verbatim>\<open>resp.headers['retry-after'] ? parseInt(resp.headers['retry-after'], 10) * 1000 : 60000\<close>;
  an empty header is falsy.
\<close>

definition retryAfter :: "string option \<Rightarrow> int option" where
  "retryAfter h =
     (case h of
        None \<Rightarrow> Some 60000
      | Some s \<Rightarrow> if s = [] then Some 60000 else map_option (\<lambda>n. n * 1000) (parseInt s))"

text \<open>
  The request itself: it takes the time the network gives it, and is logged. The timeout
  of 30 seconds is the network's affair here: a request that runs into it is one without
  a response, with the code \<^verbatim>\<open>ECONNABORTED\<close>.
\<close>

definition axios_get :: "'i server \<Rightarrow> url \<Rightarrow> 'i world \<Rightarrow> 'i http_result \<times> 'i world" where
  "axios_get srv u w =
     (let (latency, r) = srv (length (wire w)) u;
          t = clock w + int latency
      in (r, w\<lparr>clock := t,
               wire := wire w @ [\<lparr>issued = clock w, target = u, received = t, result = r\<rparr>]\<rparr>))"

text \<open>
  The function given to \<^verbatim>\<open>pRetry\<close>. \<^verbatim>\<open>axios\<close> rejects a status that \<open>validateStatus\<close>
  refuses; the handler renames three network errors and rethrows everything else, also
  the errors thrown in the \<^verbatim>\<open>try\<close> block.
\<close>

definition attempt :: "'i server \<Rightarrow> url \<Rightarrow> 'i world \<Rightarrow> (error + 'i body) \<times> 'i world" where
  "attempt srv u w0 =
     (let w1 = rate_limit w0;
          (r, w2) = axios_get srv u w1
      in case r of
           NoResponse c \<Rightarrow>
             if c = ''ECONNRESET'' \<or> c = ''ETIMEDOUT'' \<or> c = ''ECONNABORTED''
             then (Inl (NetworkError c), w2)
             else (Inl (AxiosOther c), w2)
         | Response status hdr d \<Rightarrow>
             if \<not> validateStatus status then (Inl (AxiosBadStatus status), w2)
             else if status = 429 then (Inl RateLimited, delay (retryAfter hdr) w2)
             else if status \<ge> 500 then (Inl (ServerError status), w2)
             else if d = Falsy then (Inl EmptyResponse, w2)
             else (Inr d, w2))"

section \<open>Retrying\<close>

text \<open>
  \<^verbatim>\<open>p-retry\<close> is a library, not code of this repository. Its contract, as far as the
  scraper uses it: the function is run once and then again after each failure, at most
  \<open>retries\<close> more times; before the retry that follows the failure of attempt number
  \<open>n + 1\<close> it waits \<open>min (minTimeout * 2 ^ n) maxTimeout\<close> (factor 2, no randomisation);
  when no retry is left the last error is thrown. \<^verbatim>\<open>onFailedAttempt\<close> only prints.
\<close>

definition createTimeout :: "int \<Rightarrow> int \<Rightarrow> nat \<Rightarrow> int" where
  "createTimeout minTimeout maxTimeout n = min (minTimeout * 2 ^ n) maxTimeout"

fun pRetry :: "('w \<Rightarrow> (error + 'a) \<times> 'w) \<Rightarrow> (int \<Rightarrow> 'w \<Rightarrow> 'w) \<Rightarrow> nat \<Rightarrow> int \<Rightarrow> int \<Rightarrow> nat \<Rightarrow> 'w
    \<Rightarrow> (error + 'a) \<times> 'w" where
  "pRetry f wait 0 minTimeout maxTimeout n w = f w"
| "pRetry f wait (Suc retries) minTimeout maxTimeout n w =
     (case f w of
        (Inr x, w') \<Rightarrow> (Inr x, w')
      | (Inl e, w') \<Rightarrow>
          pRetry f wait retries minTimeout maxTimeout (Suc n)
            (wait (createTimeout minTimeout maxTimeout n) w'))"

definition fetchPageWithRetry :: "'i server \<Rightarrow> url \<Rightarrow> 'i world \<Rightarrow> (error + 'i body) \<times> 'i world" where
  "fetchPageWithRetry srv u w =
     pRetry (attempt srv u) (\<lambda>ms. delay (Some ms)) 5 2000 60000 0 w"

section \<open>One project\<close>

datatype stop = LimitReached | FetchFailed error | Exhausted

text \<open>\<^verbatim>\<open>PER_PROJECT_LIMITS?.[project] ?? MAX_ISSUES\<close>\<close>

definition projectLimit :: "config \<Rightarrow> string \<Rightarrow> int option" where
  "projectLimit cfg project =
     (case PER_PROJECT_LIMITS cfg of
        None \<Rightarrow> MAX_ISSUES cfg
      | Some m \<Rightarrow> (case m project of None \<Rightarrow> MAX_ISSUES cfg | Some l \<Rightarrow> Some l))"

text \<open>\<^verbatim>\<open>projectLimit && totalFetched >= projectLimit\<close>: a limit of 0 is falsy.\<close>

definition limit_reached :: "int option \<Rightarrow> nat \<Rightarrow> bool" where
  "limit_reached lim totalFetched =
     (case lim of None \<Rightarrow> False | Some l \<Rightarrow> l \<noteq> 0 \<and> l \<le> int totalFetched)"

text \<open>\<^verbatim>\<open>data.issues || []\<close>\<close>

fun issues_of :: "'i body \<Rightarrow> 'i list" where
  "issues_of Falsy = []"
| "issues_of (Json None) = []"
| "issues_of (Json (Some xs)) = xs"

text \<open>
  \<^verbatim>\<open>progress[project] = { lastStartAt: startAt }; fs.writeFileSync(PROGRESS_FILE, ...)\<close>;
  the write itself is taken to succeed.
\<close>

definition save_progress :: "string \<Rightarrow> nat \<Rightarrow> 'i world \<Rightarrow> 'i world" where
  "save_progress project startAt w =
     (let m = (progress w)(project \<mapsto> \<lparr>lastStartAt = startAt\<rparr>)
      in w\<lparr>progress := m, progress_file := Some (JSON_stringify m),
           writes := writes w @ [(length (wire w), m)]\<rparr>)"

text \<open>
  The \<^verbatim>\<open>while (true)\<close> loop of \<^verbatim>\<open>scrapeProject\<close>, on the variables \<open>allIssues\<close>,
  \<open>startAt\<close> and \<open>totalFetched\<close>. It need not end (a service that always has another
  page, and no limit), so the model counts iterations down and returns \<open>None\<close> when the
  count is used up. The result names the \<^verbatim>\<open>break\<close> that was taken.
\<close>

fun scrape_loop :: "nat \<Rightarrow> 'i server \<Rightarrow> string \<Rightarrow> int option \<Rightarrow> 'i list \<times> nat \<times> nat \<Rightarrow> 'i world
    \<Rightarrow> (('i list \<times> nat \<times> nat) \<times> stop \<times> 'i world) option" where
  "scrape_loop 0 srv project lim vars w = None"
| "scrape_loop (Suc n) srv project lim (allIssues, startAt, totalFetched) w =
     (if limit_reached lim totalFetched
      then Some ((allIssues, startAt, totalFetched), LimitReached, w)
      else case fetchPageWithRetry srv (Url project startAt) w of
             (Inl err, w1) \<Rightarrow> Some ((allIssues, startAt, totalFetched), FetchFailed err, w1)
           | (Inr d, w1) \<Rightarrow>
               (let issues = issues_of d in
                if length issues = 0
                then Some ((allIssues, startAt, totalFetched), Exhausted, w1)
                else let allIssues' = allIssues @ issues;
                         totalFetched' = totalFetched + length issues;
                         startAt' = startAt + length issues;
                         w2 = save_progress project startAt' w1
                     in if limit_reached lim totalFetched'
                        then Some ((allIssues', startAt', totalFetched'), LimitReached, w2)
                        else scrape_loop n srv project lim (allIssues', startAt', totalFetched') w2))"

definition scrapeProject :: "nat \<Rightarrow> 'i server \<Rightarrow> config \<Rightarrow> string \<Rightarrow> 'i world
    \<Rightarrow> (stop \<times> 'i world) option" where
  "scrapeProject fuel srv cfg project w =
     (case scrape_loop fuel srv project (projectLimit cfg project)
             ([], cursor (progress w) project, 0) w of
        None \<Rightarrow> None
      | Some ((allIssues, startAt, totalFetched), why, w') \<Rightarrow>
          Some (why, w'\<lparr>raw_files := (raw_files w')(project \<mapsto> allIssues)\<rparr>))"

section \<open>All projects\<close>

text \<open>\<^verbatim>\<open>for (const project of PROJECTS) await scrapeProject(project)\<close>\<close>

fun main_loop :: "nat \<Rightarrow> 'i server \<Rightarrow> config \<Rightarrow> string list \<Rightarrow> 'i world \<Rightarrow> 'i world option" where
  "main_loop fuel srv cfg [] w = Some w"
| "main_loop fuel srv cfg (project # rest) w =
     (case scrapeProject fuel srv cfg project w of
        None \<Rightarrow> None
      | Some (why, w') \<Rightarrow> main_loop fuel srv cfg rest w')"

text \<open>A whole process: the module is loaded, then \<^verbatim>\<open>main\<close> runs.\<close>

definition run_process :: "nat \<Rightarrow> 'i server \<Rightarrow> config \<Rightarrow> 'i world \<Rightarrow> (error + 'i world) option" where
  "run_process fuel srv cfg w =
     (case startup w of
        Inl e \<Rightarrow> Some (Inl e)
      | Inr w0 \<Rightarrow> map_option Inr (main_loop fuel srv cfg (PROJECTS cfg) w0))"

section \<open>Observations on the wire\<close>

text \<open>
  The statements below read the log of exchanges. An exchange is \<open>accepted\<close> when the
  attempt that made it returns its body; \<open>delivered\<close> is the page that the loop of
  \<open>scrapeProject\<close> takes from it; \<open>server_wait\<close> is the time an attempt waits on its own
  after a 429 before it fails. \<open>next_exchange\<close> is the exchange that the next attempt
  adds to the log.
\<close>

fun accepted :: "'i http_result \<Rightarrow> bool" where
  "accepted (Response status hdr d) = (status < 500 \<and> status \<noteq> 429 \<and> d \<noteq> Falsy)"
| "accepted (NoResponse c) = False"

fun delivered :: "'i http_result \<Rightarrow> 'i list" where
  "delivered (Response status hdr d) = (if status < 500 \<and> status \<noteq> 429 then issues_of d else [])"
| "delivered (NoResponse c) = []"


definition next_exchange :: "'i server \<Rightarrow> url \<Rightarrow> 'i world \<Rightarrow> 'i exchange" where
  "next_exchange srv u w =
     \<lparr>issued = clock (rate_limit w), target = u,
      received = clock (rate_limit w) + int (fst (srv (length (wire w)) u)),
      result = snd (srv (length (wire w)) u)\<rparr>"

section \<open>Scenarios\<close>

text \<open>A fresh process on an empty disk, and services that always give the same answer.\<close>

definition world0 :: "nat world" where
  "world0 = \<lparr>clock = 1000000, lastRequestTime = 0, progress = Map.empty, progress_file = None,
             raw_files = Map.empty, wire = [], writes = []\<rparr>"

definition always_404 :: "nat server" where
  "always_404 n u = (120, Response 404 None (Json None))"

definition empty_404 :: "nat server" where
  "empty_404 n u = (120, Response 404 None Falsy)"

definition always_503 :: "nat server" where
  "always_503 n u = (120, Response 503 None Falsy)"

definition cfg0 :: config where
  "cfg0 = \<lparr>PROJECTS = [''SPARK'', ''KAFKA''], MAX_ISSUES = None, PER_PROJECT_LIMITS = None\<rparr>"

text \<open>
  A resumed run: the cursor of SPARK is at 100 and the raw file of an earlier run is
  there; the service has two more issues at offset 100 and none after them.
\<close>

definition resume_world :: "nat world" where
  "resume_world =
     \<lparr>clock = 1000000, lastRequestTime = 0,
      progress = [''SPARK'' \<mapsto> \<lparr>lastStartAt = 100\<rparr>],
      progress_file = Some (Json_of [''SPARK'' \<mapsto> \<lparr>lastStartAt = 100\<rparr>]),
      raw_files = [''SPARK'' \<mapsto> [1, 2, 3]], wire = [], writes = []\<rparr>"

definition tail_server :: "nat server" where
  "tail_server n u =
     (case u of Url p k \<Rightarrow>
        if k = 100 then (80, Response 200 None (Json (Some [7, 8])))
        else (80, Response 200 None (Json (Some []))))"

definition resumed_world :: "nat world" where
  "resumed_world =
    \<lparr>clock = 1000280, lastRequestTime = 1000200,
      progress = [''SPARK'' \<mapsto> \<lparr>lastStartAt = 102\<rparr>],
      progress_file = Some (Json_of [''SPARK'' \<mapsto> \<lparr>lastStartAt = 102\<rparr>]),
      raw_files = [''SPARK'' \<mapsto> [7, 8]],
      wire = [\<lparr>issued = 1000000, target = Url ''SPARK'' 100, received = 1000080,
               result = Response 200 None (Json (Some [7, 8]))\<rparr>,
              \<lparr>issued = 1000200, target = Url ''SPARK'' 102, received = 1000280,
               result = Response 200 None (Json (Some []))\<rparr>],
      writes = [(1, [''SPARK'' \<mapsto> \<lparr>lastStartAt = 102\<rparr>])]\<rparr>"

section \<open>Spacing of requests\<close>

text \<open>
  A list of times, in order, any two neighbours of which are at least the minimum
  interval apart; and the state of the limiter in a process whose first request is
  number \<open>b\<close> on the wire: its requests are spaced, and none is later than
  \<open>lastRequestTime\<close>.
\<close>

fun spaced :: "int list \<Rightarrow> bool" where
  "spaced [] = True"
| "spaced [t] = True"
| "spaced (t # t' # ts) = (t + MIN_REQUEST_INTERVAL \<le> t' \<and> spaced (t' # ts))"

definition limiter_ok :: "nat \<Rightarrow> 'i world \<Rightarrow> bool" where
  "limiter_ok b w =
     (b \<le> length (wire w) \<and> spaced (map issued (drop b (wire w))) \<and>
      (\<forall>e\<in>set (drop b (wire w)). issued e \<le> lastRequestTime w))"

section \<open>More scenarios\<close>




text \<open>The end of a process that resumes SPARK and then scrapes KAFKA.\<close>

definition finished_world :: "nat world" where
  "finished_world =
    \<lparr>clock = 1000480, lastRequestTime = 1000400,
      progress = [''SPARK'' \<mapsto> \<lparr>lastStartAt = 102\<rparr>],
      progress_file = Some (Json_of [''SPARK'' \<mapsto> \<lparr>lastStartAt = 102\<rparr>]),
      raw_files = [''SPARK'' \<mapsto> [7, 8], ''KAFKA'' \<mapsto> []],
      wire = [\<lparr>issued = 1000000, target = Url ''SPARK'' 100, received = 1000080,
               result = Response 200 None (Json (Some [7, 8]))\<rparr>,
              \<lparr>issued = 1000200, target = Url ''SPARK'' 102, received = 1000280,
               result = Response 200 None (Json (Some []))\<rparr>,
              \<lparr>issued = 1000400, target = Url ''KAFKA'' 0, received = 1000480,
               result = Response 200 None (Json (Some []))\<rparr>],
      writes = [(1, [''SPARK'' \<mapsto> \<lparr>lastStartAt = 102\<rparr>])]\<rparr>"

section \<open>The cursor and the pages\<close>

text \<open>
  The number of records that the exchanges of a list delivered for a project; the cursor
  that a process starting now would resume from; and the agreement of the progress in
  memory with the file, which holds throughout a process.
\<close>

fun project_of :: "url \<Rightarrow> string" where
  "project_of (Url p k) = p"

definition pages_total :: "string \<Rightarrow> 'i exchange list \<Rightarrow> nat" where
  "pages_total p es =
     sum_list (map (\<lambda>e. length (delivered (result e))) (filter (\<lambda>e. project_of (target e) = p) es))"

definition persisted :: "'i world \<Rightarrow> string \<Rightarrow> nat" where
  "persisted w p = (case load_progress (progress_file w) of Inl e \<Rightarrow> 0 | Inr m \<Rightarrow> cursor m p)"

definition mem_ok :: "'i world \<Rightarrow> bool" where
  "mem_ok w = (load_progress (progress_file w) = Inr (progress w))"

text \<open>
  The history of a disk that only the scraper has written: for every project the
  persisted cursor is the number of records delivered so far, the snapshots were
  written in the order of the exchanges, and each snapshot holds, for every project, the
  number of records delivered by the exchanges completed before it was written.
\<close>

definition history_ok :: "'i world \<Rightarrow> bool" where
  "history_ok w =
     ((\<forall>p. persisted w p = pages_total p (wire w)) \<and>
      sorted (map fst (writes w)) \<and>
      (\<forall>(k, m)\<in>set (writes w).
          k \<le> length (wire w) \<and> (\<forall>p. cursor m p = pages_total p (take k (wire w)))))"

text \<open>
  Restarts: one process after another on the same disk, each with its own
  configuration and its own answers from the service. A process that ends with an error
  at start-up has changed nothing.
\<close>

fun runs :: "(nat \<times> 'i server \<times> config) list \<Rightarrow> 'i world \<Rightarrow> 'i world option" where
  "runs [] w = Some w"
| "runs ((fuel, srv, cfg) # rs) w =
     (case run_process fuel srv cfg w of
        None \<Rightarrow> None
      | Some (Inl e) \<Rightarrow> runs rs w
      | Some (Inr w') \<Rightarrow> runs rs w')"

text \<open>
  A service with three records, in pages of two; a first process limited to two records
  and a second one without a limit.
\<close>

definition paged :: "nat server" where
  "paged n u =
     (case u of Url p k \<Rightarrow>
        if k = 0 then (80, Response 200 None (Json (Some [1, 2])))
        else if k = 2 then (80, Response 200 None (Json (Some [3])))
        else (80, Response 200 None (Json (Some []))))"

definition cfg_first :: config where
  "cfg_first = \<lparr>PROJECTS = [''SPARK''], MAX_ISSUES = Some 2, PER_PROJECT_LIMITS = None\<rparr>"

definition cfg_rest :: config where
  "cfg_rest = \<lparr>PROJECTS = [''SPARK''], MAX_ISSUES = None, PER_PROJECT_LIMITS = None\<rparr>"

section \<open>One attempt\<close>

lemma wire_rate_limit [simp]: "wire (rate_limit w) = wire w"
  by (simp add: rate_limit_def delay_def Let_def)

lemma wire_delay [simp]: "wire (delay ms w) = wire w"
  by (simp add: delay_def split: option.splits)

lemma attempt_wire: "wire (snd (attempt srv u w)) = wire w @ [next_exchange srv u w]"
  by (simp add: attempt_def axios_get_def next_exchange_def Let_def delay_def
      split: prod.splits http_result.splits option.splits)


lemma attempt_lastRequestTime:
  "lastRequestTime (snd (attempt srv u w)) = issued (next_exchange srv u w)"
  by (simp add: attempt_def axios_get_def next_exchange_def Let_def delay_def rate_limit_def
      split: prod.splits http_result.splits option.splits)

lemma attempt_frame:
  "progress (snd (attempt srv u w)) = progress w"
  "progress_file (snd (attempt srv u w)) = progress_file w"
  "raw_files (snd (attempt srv u w)) = raw_files w"
  "writes (snd (attempt srv u w)) = writes w"
  by (simp_all add: attempt_def axios_get_def Let_def delay_def rate_limit_def
      split: prod.splits http_result.splits option.splits)

lemma attempt_result:
  "fst (attempt srv u w) = Inr d \<longleftrightarrow>
     accepted (result (next_exchange srv u w)) \<and>
     (\<exists>st h. result (next_exchange srv u w) = Response st h d)"
  by (auto simp add: attempt_def axios_get_def next_exchange_def Let_def validateStatus_def
      split: prod.splits http_result.splits option.splits)

lemma attempt_accept:
  assumes "srv (length (wire w)) u = (lat, Response st h d)"
    and "st < 500" and "st \<noteq> 429" and "d \<noteq> Falsy"
  shows "attempt srv u w =
    (Inr d, (rate_limit w)\<lparr>clock := clock (rate_limit w) + int lat,
        wire := wire w @ [\<lparr>issued = clock (rate_limit w), target = u,
                           received = clock (rate_limit w) + int lat, result = Response st h d\<rparr>]\<rparr>)"
  using assms by (simp add: attempt_def axios_get_def validateStatus_def Let_def)


section \<open>The retry loop\<close>

lemma fetch_accept:
  assumes "srv (length (wire w)) u = (lat, Response st h d)"
    and "st < 500" and "st \<noteq> 429" and "d \<noteq> Falsy"
  shows "fetchPageWithRetry srv u w =
    (Inr d, (rate_limit w)\<lparr>clock := clock (rate_limit w) + int lat,
        wire := wire w @ [\<lparr>issued = clock (rate_limit w), target = u,
                           received = clock (rate_limit w) + int lat, result = Response st h d\<rparr>]\<rparr>)"
  using assms unfolding fetchPageWithRetry_def
  by (simp add: numeral_eq_Suc attempt_accept)


lemma pRetry_all_fail:
  assumes "\<And>k. \<not> accepted (snd (srv k u))"
  shows "length (wire (snd (pRetry (attempt srv u) (\<lambda>ms. delay (Some ms)) r a b n w))) = length (wire w) + Suc r
     \<and> (\<exists>e. fst (pRetry (attempt srv u) (\<lambda>ms. delay (Some ms)) r a b n w) = Inl e)"
proof (induction r arbitrary: n w)
  case 0
  have "\<not> accepted (result (next_exchange srv u w))"
    using assms by (simp add: next_exchange_def)
  then have "\<And>d. fst (attempt srv u w) \<noteq> Inr d" by (simp add: attempt_result)
  then have "\<exists>e. fst (attempt srv u w) = Inl e" by (cases "fst (attempt srv u w)") auto
  then show ?case by (simp add: attempt_wire)
next
  case (Suc r)
  obtain res w1 where a: "attempt srv u w = (res, w1)" by (cases "attempt srv u w")
  then have w1: "wire w1 = wire w @ [next_exchange srv u w]"
    using attempt_wire[of srv u w] by simp
  have "\<not> accepted (result (next_exchange srv u w))"
    using assms by (simp add: next_exchange_def)
  then have "\<And>d. fst (attempt srv u w) \<noteq> Inr d" by (simp add: attempt_result)
  then obtain e where "res = Inl e" using a by (cases res) auto
  then show ?case
    using a w1 Suc.IH[where w="delay (Some (createTimeout a b n)) w1" and n="Suc n"] by simp
qed


lemma pRetry_frame:
  "progress (snd (pRetry (attempt srv u) (\<lambda>ms. delay (Some ms)) r a b n w)) = progress w \<and>
   progress_file (snd (pRetry (attempt srv u) (\<lambda>ms. delay (Some ms)) r a b n w)) = progress_file w \<and>
   raw_files (snd (pRetry (attempt srv u) (\<lambda>ms. delay (Some ms)) r a b n w)) = raw_files w \<and>
   writes (snd (pRetry (attempt srv u) (\<lambda>ms. delay (Some ms)) r a b n w)) = writes w"
proof (induction r arbitrary: n w)
  case 0
  show ?case by (simp add: attempt_frame)
next
  case (Suc r)
  obtain res w1 where a: "attempt srv u w = (res, w1)" by (cases "attempt srv u w")
  then have w1: "progress w1 = progress w" "progress_file w1 = progress_file w"
     "raw_files w1 = raw_files w" "writes w1 = writes w"
    using attempt_frame[of srv u w] by simp_all
  show ?case
  proof (cases res)
    case (Inr d)
    then show ?thesis using a w1 by simp
  next
    case (Inl e)
    then show ?thesis
      using a w1 Suc.IH[where w="delay (Some (createTimeout a b n)) w1" and n="Suc n"]
      by (simp add: delay_def)
  qed
qed

lemma fetch_frame:
  assumes "fetchPageWithRetry srv u w = (res, w1)"
  shows "progress w1 = progress w" "progress_file w1 = progress_file w"
     "raw_files w1 = raw_files w" "writes w1 = writes w"
  using assms pRetry_frame[of srv u 5 2000 60000 0 w]
  by (simp_all add: fetchPageWithRetry_def)

section \<open>Client errors\<close>

text \<open>
  Claim C1 (a 4xx status other than 429 is a fatal failure, at once and without a retry;
  it is never a success). The code has no such case: \<open>validateStatus\<close> accepts every
  status below 500, and only 429 and an empty body are turned into errors afterwards.
  So the error document of a 404 is returned as the page of the fetch, after one
  attempt, and the loop of \<open>scrapeProject\<close>, finding no \<open>issues\<close> in it, ends the
  project as if it had no more data; and a 404 without a body is an empty response,
  which is retried five times.
\<close>

theorem client_error_returned_as_page:
  "fst (fetchPageWithRetry always_404 u w) = Inr (Json None) \<and>
   length (wire (snd (fetchPageWithRetry always_404 u w))) = Suc (length (wire w)) \<and>
   (\<exists>w'. scrape_loop (Suc n) always_404 project None (allIssues, startAt, totalFetched) w
      = Some ((allIssues, startAt, totalFetched), Exhausted, w')) \<and>
   length (wire (snd (fetchPageWithRetry empty_404 u w))) = length (wire w) + 6"
proof -
  have f: "fetchPageWithRetry always_404 v w =
    (Inr (Json None), (rate_limit w)\<lparr>clock := clock (rate_limit w) + int 120,
        wire := wire w @ [\<lparr>issued = clock (rate_limit w), target = v,
                           received = clock (rate_limit w) + int 120,
                           result = Response 404 None (Json None)\<rparr>]\<rparr>)" for v
    by (rule fetch_accept) (simp_all add: always_404_def)
  have "\<not> accepted (snd (empty_404 k u))" for k :: nat
    by (simp add: empty_404_def)
  then have e: "length (wire (snd (fetchPageWithRetry empty_404 u w))) = length (wire w) + 6"
    using pRetry_all_fail[of empty_404 u 5 2000 60000 0 w]
    by (simp add: fetchPageWithRetry_def)
  show ?thesis
    by (simp add: f e limit_reached_def)
qed

section \<open>A malformed progress file\<close>

text \<open>
  Claim C2 (loading a progress document that is absent or does not parse gives the empty
  mapping and raises nothing). For an absent file the code does so. For a file that does
  not parse, \<^verbatim>\<open>JSON.parse\<close> throws while the module is loaded, and nothing catches it:
  the process ends with the syntax error before any project is scraped.
\<close>

theorem malformed_progress_ends_process:
  "load_progress None = Inr Map.empty \<and>
   load_progress (Some Not_json) = Inl SyntaxError \<and>
   run_process fuel srv cfg (w\<lparr>progress_file := Some Not_json\<rparr>) = Some (Inl SyntaxError)"
  by (simp add: load_progress_def run_process_def startup_def)

section \<open>The number of attempts\<close>




section \<open>Evaluation on the scenarios\<close>

lemmas eval_defs = scrapeProject_def fetchPageWithRetry_def attempt_def axios_get_def rate_limit_def
  delay_def validateStatus_def MIN_REQUEST_INTERVAL_def projectLimit_def limit_reached_def cursor_def
  save_progress_def JSON_stringify_def Let_def numeral_eq_Suc createTimeout_def

section \<open>What a fetch adds to the wire\<close>

lemma attempt_delivered:
  "delivered (result (next_exchange srv u w)) =
     (case fst (attempt srv u w) of Inr d \<Rightarrow> issues_of d | Inl e \<Rightarrow> [])"
  by (simp add: attempt_def axios_get_def next_exchange_def Let_def validateStatus_def
      split: prod.splits http_result.splits option.splits)

lemma target_next_exchange [simp]: "target (next_exchange srv u w) = u"
  by (simp add: next_exchange_def)

lemma pRetry_new_exchanges:
  "\<exists>new. wire (snd (pRetry (attempt srv u) (\<lambda>ms. delay (Some ms)) r a b n w)) = wire w @ new \<and>
     (\<forall>e\<in>set new. target e = u) \<and>
     concat (map (\<lambda>e. delivered (result e)) new) =
       (case fst (pRetry (attempt srv u) (\<lambda>ms. delay (Some ms)) r a b n w) of
          Inr d \<Rightarrow> issues_of d | Inl e \<Rightarrow> [])"
proof (induction r arbitrary: n w)
  case 0
  show ?case
    by (rule exI[of _ "[next_exchange srv u w]"]) (simp add: attempt_wire attempt_delivered)
next
  case (Suc r)
  obtain res w1 where a: "attempt srv u w = (res, w1)" by (cases "attempt srv u w")
  then have w1: "wire w1 = wire w @ [next_exchange srv u w]"
    using attempt_wire[of srv u w] by simp
  have dl: "delivered (result (next_exchange srv u w)) =
      (case res of Inr d \<Rightarrow> issues_of d | Inl e \<Rightarrow> [])"
    using a attempt_delivered[of srv u w] by simp
  show ?case
  proof (cases res)
    case (Inr d)
    then show ?thesis using a w1 dl
      by (intro exI[of _ "[next_exchange srv u w]"]) simp
  next
    case (Inl e)
    let ?w' = "delay (Some (createTimeout a b n)) w1"
    obtain new where new:
      "wire (snd (pRetry (attempt srv u) (\<lambda>ms. delay (Some ms)) r a b (Suc n) ?w')) = wire ?w' @ new"
      "\<forall>e\<in>set new. target e = u"
      "concat (map (\<lambda>e. delivered (result e)) new) =
       (case fst (pRetry (attempt srv u) (\<lambda>ms. delay (Some ms)) r a b (Suc n) ?w') of
          Inr d \<Rightarrow> issues_of d | Inl e \<Rightarrow> [])"
      using Suc.IH[where w="?w'" and n="Suc n"] by blast
    show ?thesis
      using Inl a w1 dl new
      by (intro exI[of _ "next_exchange srv u w # new"]) simp
  qed
qed

lemma fetch_new_exchanges:
  assumes "fetchPageWithRetry srv u w = (res, w1)"
  obtains new where "wire w1 = wire w @ new" "\<forall>e\<in>set new. target e = u"
    "concat (map (\<lambda>e. delivered (result e)) new) = (case res of Inr d \<Rightarrow> issues_of d | Inl e \<Rightarrow> [])"
  using assms pRetry_new_exchanges[of srv u 5 2000 60000 0 w]
  by (auto simp add: fetchPageWithRetry_def)

section \<open>One iteration of the loop\<close>

lemma wire_save_progress [simp]: "wire (save_progress p c w) = wire w"
  by (simp add: save_progress_def Let_def)

lemma raw_files_save_progress [simp]: "raw_files (save_progress p c w) = raw_files w"
  by (simp add: save_progress_def Let_def)

lemma scrape_loop_cases:
  assumes "scrape_loop (Suc n) srv p lim (a, c, t) w = Some R"
  obtains
    (limit) "limit_reached lim t" "R = ((a, c, t), LimitReached, w)"
  | (failed) e w1 where "\<not> limit_reached lim t"
      "fetchPageWithRetry srv (Url p c) w = (Inl e, w1)" "R = ((a, c, t), FetchFailed e, w1)"
  | (empty) d w1 where "\<not> limit_reached lim t"
      "fetchPageWithRetry srv (Url p c) w = (Inr d, w1)" "issues_of d = []"
      "R = ((a, c, t), Exhausted, w1)"
  | (last) d w1 where "\<not> limit_reached lim t"
      "fetchPageWithRetry srv (Url p c) w = (Inr d, w1)" "issues_of d \<noteq> []"
      "limit_reached lim (t + length (issues_of d))"
      "R = ((a @ issues_of d, c + length (issues_of d), t + length (issues_of d)), LimitReached,
            save_progress p (c + length (issues_of d)) w1)"
  | (more) d w1 where "\<not> limit_reached lim t"
      "fetchPageWithRetry srv (Url p c) w = (Inr d, w1)" "issues_of d \<noteq> []"
      "\<not> limit_reached lim (t + length (issues_of d))"
      "scrape_loop n srv p lim
         (a @ issues_of d, c + length (issues_of d), t + length (issues_of d))
         (save_progress p (c + length (issues_of d)) w1) = Some R"
proof (cases "limit_reached lim t")
  case True
  then show ?thesis using assms limit by simp
next
  case nl: False
  obtain res w1 where f: "fetchPageWithRetry srv (Url p c) w = (res, w1)"
    by (cases "fetchPageWithRetry srv (Url p c) w")
  show ?thesis
  proof (cases res)
    case (Inl e)
    then show ?thesis using assms nl f failed by simp
  next
    case (Inr d)
    show ?thesis
    proof (cases "issues_of d = []")
      case True
      then show ?thesis using assms nl f Inr empty by simp
    next
      case ne: False
      show ?thesis
      proof (cases "limit_reached lim (t + length (issues_of d))")
        case True
        then show ?thesis using assms nl f Inr ne last by (simp add: Let_def)
      next
        case False
        then show ?thesis using assms nl f Inr ne more by (simp add: Let_def)
      qed
    qed
  qed
qed

lemma scrape_loop_collects:
  assumes "scrape_loop fuel srv p lim (a, c, t) w = Some ((a', c', t'), why, w')"
  shows "\<exists>new. wire w' = wire w @ new \<and> a' = a @ concat (map (\<lambda>e. delivered (result e)) new)
     \<and> raw_files w' = raw_files w"
  using assms
proof (induction fuel arbitrary: a c t w)
  case 0
  then show ?case by simp
next
  case (Suc n)
  from Suc.prems show ?case
  proof (cases rule: scrape_loop_cases)
    case limit
    then show ?thesis by simp
  next
    case (failed e w1)
    from failed(2) obtain new where "wire w1 = wire w @ new"
      "concat (map (\<lambda>e. delivered (result e)) new) = []"
      by (rule fetch_new_exchanges) simp
    then show ?thesis using failed fetch_frame(3)[OF failed(2)] by simp
  next
    case (empty d w1)
    from empty(2) obtain new where "wire w1 = wire w @ new"
      "concat (map (\<lambda>e. delivered (result e)) new) = issues_of d"
      by (rule fetch_new_exchanges) simp
    then show ?thesis using empty fetch_frame(3)[OF empty(2)] by simp
  next
    case (last d w1)
    from last(2) obtain new where "wire w1 = wire w @ new"
      "concat (map (\<lambda>e. delivered (result e)) new) = issues_of d"
      by (rule fetch_new_exchanges) simp
    then show ?thesis using last fetch_frame(3)[OF last(2)] by simp
  next
    case (more d w1)
    from more(2) obtain new where new: "wire w1 = wire w @ new"
      "concat (map (\<lambda>e. delivered (result e)) new) = issues_of d"
      by (rule fetch_new_exchanges) simp
    from Suc.IH[OF more(5)] obtain new' where
      "wire w' = wire (save_progress p (c + length (issues_of d)) w1) @ new'"
      "a' = (a @ issues_of d) @ concat (map (\<lambda>e. delivered (result e)) new')"
      "raw_files w' = raw_files (save_progress p (c + length (issues_of d)) w1)"
      by blast
    then show ?thesis using new fetch_frame(3)[OF more(2)]
      by (intro exI[of _ "new @ new'"]) simp
  qed
qed

section \<open>The raw file\<close>

text \<open>
  Claim C3: the raw file that a run of \<open>scrapeProject\<close> writes holds exactly the issues
  that the exchanges of this run delivered, in order, whatever the file held before and
  wherever the cursor stood at the start; the other raw files are left alone. So a
  resumed run replaces the records of the earlier runs by its own.
\<close>

theorem raw_file_holds_this_run:
  assumes "scrapeProject fuel srv cfg project w = Some (why, w')"
  shows "raw_files w' project =
     Some (concat (map (\<lambda>e. delivered (result e)) (drop (length (wire w)) (wire w'))))
   \<and> (\<forall>q. q \<noteq> project \<longrightarrow> raw_files w' q = raw_files w q)"
proof -
  from assms obtain a' c' t' w1 where
    l: "scrape_loop fuel srv project (projectLimit cfg project)
          ([], cursor (progress w) project, 0) w = Some ((a', c', t'), why, w1)"
    and w': "w' = w1\<lparr>raw_files := (raw_files w1)(project \<mapsto> a')\<rparr>"
    by (auto simp add: scrapeProject_def split: option.splits)
  from scrape_loop_collects[OF l] obtain new where
    "wire w1 = wire w @ new" "a' = concat (map (\<lambda>e. delivered (result e)) new)"
    "raw_files w1 = raw_files w"
    by auto
  then show ?thesis using w' by simp
qed

theorem raw_file_holds_this_run_witness:
  "raw_files resume_world ''SPARK'' = Some [1, 2, 3] \<and>
   cursor (progress resume_world) ''SPARK'' = 100 \<and>
   scrapeProject 3 tail_server cfg0 ''SPARK'' resume_world = Some (Exhausted, resumed_world) \<and>
   raw_files resumed_world ''SPARK'' = Some [7, 8]"
proof -
  have h: "scrapeProject 3 tail_server cfg0 ''SPARK'' resume_world = Some (Exhausted, resumed_world)"
    by (simp add: eval_defs cfg0_def resume_world_def tail_server_def resumed_world_def)
  have "raw_files resumed_world ''SPARK'' =
     Some (concat (map (\<lambda>e. delivered (result e))
       (drop (length (wire resume_world)) (wire resumed_world))))"
    using raw_file_holds_this_run[OF h] by simp
  then show ?thesis using h
    by (simp add: resume_world_def resumed_world_def cursor_def)
qed

section \<open>The end of the data\<close>

text \<open>
  Claim C10: whenever the loop issues a fetch (the limit, if any, is not yet reached)
  and the fetch succeeds with a page of zero records, the loop ends there with the
  outcome \<open>Exhausted\<close>, whatever the limit, the offset and the count fetched so far;
  its variables are as they were.
\<close>

theorem empty_page_exhausts:
  assumes "\<not> limit_reached lim totalFetched"
    and "fetchPageWithRetry srv (Url project startAt) w = (Inr d, w1)"
    and "issues_of d = []"
  shows "scrape_loop (Suc n) srv project lim (allIssues, startAt, totalFetched) w
     = Some ((allIssues, startAt, totalFetched), Exhausted, w1)"
  using assms by simp

theorem empty_page_exhausts_witness:
  "\<not> limit_reached (Some 120) 50 \<and>
   fst (fetchPageWithRetry tail_server (Url ''SPARK'' 150) world0) = Inr (Json (Some [])) \<and>
   scrape_loop 1 tail_server ''SPARK'' (Some 120) ([1, 2], 150, 50) world0
     = Some (([1, 2], 150, 50), Exhausted,
             snd (fetchPageWithRetry tail_server (Url ''SPARK'' 150) world0))"
proof -
  have a: "\<not> limit_reached (Some 120) 50" by (simp add: limit_reached_def)
  have b: "fst (fetchPageWithRetry tail_server (Url ''SPARK'' 150) world0) = Inr (Json (Some []))"
    by (simp add: eval_defs world0_def tail_server_def)
  then have c: "fetchPageWithRetry tail_server (Url ''SPARK'' 150) world0
     = (Inr (Json (Some [])), snd (fetchPageWithRetry tail_server (Url ''SPARK'' 150) world0))"
    by (metis prod.collapse)
  show ?thesis
    using a b empty_page_exhausts[OF a c, of 0 "[1, 2]"] by simp
qed

section \<open>A failed fetch\<close>

text \<open>
  Claim C8: when the fetch of an iteration fails (a fatal error, or a retryable one after
  the last retry), the loop ends there with \<open>FetchFailed\<close>: the issues collected, the
  cursor and the count are those of the pages obtained before, and the progress, in
  memory and on disk, and the raw files are untouched by the failed fetch. For the
  caller, \<open>scrapeProject\<close> returns as after any other run, and \<open>main\<close> goes on with the
  projects that follow.
\<close>

theorem fetch_failure_stops_only_this_source:
  assumes "\<not> limit_reached lim totalFetched"
    and "fetchPageWithRetry srv (Url project startAt) w = (Inl e, w1)"
  shows "scrape_loop (Suc n) srv project lim (allIssues, startAt, totalFetched) w
       = Some ((allIssues, startAt, totalFetched), FetchFailed e, w1)
     \<and> progress w1 = progress w \<and> progress_file w1 = progress_file w
     \<and> writes w1 = writes w \<and> raw_files w1 = raw_files w
     \<and> (\<forall>w0 w'. scrapeProject fuel srv cfg project w0 = Some (FetchFailed e, w') \<longrightarrow>
          main_loop fuel srv cfg (project # rest) w0 = main_loop fuel srv cfg rest w')"
  using assms fetch_frame[OF assms(2)] by simp

theorem fetch_failure_stops_only_this_source_witness:
  "\<not> limit_reached None 0 \<and>
   fst (fetchPageWithRetry always_503 (Url ''SPARK'' 0) world0) = Inl (AxiosBadStatus 503) \<and>
   scrape_loop (Suc 0) always_503 ''SPARK'' None ([], 0, 0) world0
     = Some (([], 0, 0), FetchFailed (AxiosBadStatus 503),
             snd (fetchPageWithRetry always_503 (Url ''SPARK'' 0) world0)) \<and>
   progress_file (snd (fetchPageWithRetry always_503 (Url ''SPARK'' 0) world0))
     = progress_file world0 \<and>
   main_loop 1 always_503 cfg0 [''SPARK'', ''KAFKA''] world0
     = main_loop 1 always_503 cfg0 [''KAFKA'']
         (snd (the (scrapeProject 1 always_503 cfg0 ''SPARK'' world0))) \<and>
   map target (drop 6 (wire (the (main_loop 1 always_503 cfg0 [''SPARK'', ''KAFKA''] world0))))
     = replicate 6 (Url ''KAFKA'' 0)"
proof -
  have a: "\<not> limit_reached None 0" by (simp add: limit_reached_def)
  have b: "fst (fetchPageWithRetry always_503 (Url ''SPARK'' 0) world0) = Inl (AxiosBadStatus 503)"
    by (simp add: eval_defs world0_def always_503_def)
  then have c: "fetchPageWithRetry always_503 (Url ''SPARK'' 0) world0
     = (Inl (AxiosBadStatus 503), snd (fetchPageWithRetry always_503 (Url ''SPARK'' 0) world0))"
    by (metis prod.collapse)
  have d: "scrapeProject 1 always_503 cfg0 ''SPARK'' world0
     = Some (FetchFailed (AxiosBadStatus 503),
             snd (the (scrapeProject 1 always_503 cfg0 ''SPARK'' world0)))"
    by (simp add: eval_defs world0_def always_503_def cfg0_def)
  have e: "map target (drop 6 (wire (the (main_loop 1 always_503 cfg0 [''SPARK'', ''KAFKA''] world0))))
     = replicate 6 (Url ''KAFKA'' 0)"
    by (simp add: eval_defs world0_def always_503_def cfg0_def)
  note T = fetch_failure_stops_only_this_source[OF a c, of 0 "[]" 1 cfg0 "[''KAFKA'']"]
  from T have t1: "scrape_loop (Suc 0) always_503 ''SPARK'' None ([], 0, 0) world0
     = Some (([], 0, 0), FetchFailed (AxiosBadStatus 503),
             snd (fetchPageWithRetry always_503 (Url ''SPARK'' 0) world0))"
    by (rule conjunct1)
  from T have t2: "progress_file (snd (fetchPageWithRetry always_503 (Url ''SPARK'' 0) world0))
     = progress_file world0"
    by blast
  from T d have t3: "main_loop 1 always_503 cfg0 [''SPARK'', ''KAFKA''] world0
     = main_loop 1 always_503 cfg0 [''KAFKA'']
         (snd (the (scrapeProject 1 always_503 cfg0 ''SPARK'' world0)))"
    by blast
  from a b t1 t2 t3 e show ?thesis by (intro conjI)
qed

section \<open>The rate limiter\<close>

lemma spaced_snoc:
  "spaced (ts @ [t]) = (spaced ts \<and> (ts \<noteq> [] \<longrightarrow> last ts + MIN_REQUEST_INTERVAL \<le> t))"
  by (induction ts rule: spaced.induct) auto

lemma spaced_span:
  "spaced ts \<Longrightarrow> ts \<noteq> [] \<Longrightarrow> (int (length ts) - 1) * MIN_REQUEST_INTERVAL \<le> last ts - hd ts"
  by (induction ts rule: spaced.induct) (auto simp add: algebra_simps)

lemma spaced_pairwise:
  "spaced ts \<Longrightarrow> i < j \<Longrightarrow> j < length ts \<Longrightarrow> ts ! i + MIN_REQUEST_INTERVAL \<le> ts ! j"
proof (induction ts arbitrary: i j rule: spaced.induct)
  case 1
  then show ?case by simp
next
  case (2 t)
  then show ?case by simp
next
  case (3 t t' ts)
  obtain j' where j: "j = Suc j'" using "3.prems"(2) by (cases j) simp_all
  have sp: "spaced (t' # ts)" and tt: "t + MIN_REQUEST_INTERVAL \<le> t'"
    using "3.prems"(1) by simp_all
  show ?case
  proof (cases i)
    case 0
    show ?thesis
    proof (cases j')
      case 0
      then show ?thesis using \<open>i = 0\<close> j tt by simp
    next
      case (Suc k)
      have "(t' # ts) ! 0 + MIN_REQUEST_INTERVAL \<le> (t' # ts) ! j'"
        using "3.IH"[OF sp, of 0 j'] Suc "3.prems"(3) j by simp
      then show ?thesis using \<open>i = 0\<close> j tt by (simp add: MIN_REQUEST_INTERVAL_def)
    qed
  next
    case (Suc i')
    have "(t' # ts) ! i' + MIN_REQUEST_INTERVAL \<le> (t' # ts) ! j'"
      using "3.IH"[OF sp, of i' j'] Suc j "3.prems"(2,3) by simp
    then show ?thesis using Suc j by simp
  qed
qed

lemma rate_limit_clock:
  "clock (rate_limit w) = max (clock w) (lastRequestTime w + MIN_REQUEST_INTERVAL)"
  by (simp add: rate_limit_def delay_def Let_def)

lemma issued_next_exchange:
  "issued (next_exchange srv u w) = max (clock w) (lastRequestTime w + MIN_REQUEST_INTERVAL)"
  by (simp add: next_exchange_def rate_limit_clock)

lemma limiter_ok_attempt:
  assumes "limiter_ok b w"
  shows "limiter_ok b (snd (attempt srv u w))"
proof -
  let ?e = "next_exchange srv u w"
  let ?old = "map issued (drop b (wire w))"
  have b: "b \<le> length (wire w)" and sp: "spaced ?old"
    and le: "\<forall>e\<in>set (drop b (wire w)). issued e \<le> lastRequestTime w"
    using assms by (simp_all add: limiter_ok_def)
  have ge: "lastRequestTime w + MIN_REQUEST_INTERVAL \<le> issued ?e"
    by (simp add: issued_next_exchange)
  have "?old \<noteq> [] \<longrightarrow> last ?old + MIN_REQUEST_INTERVAL \<le> issued ?e"
  proof
    assume ne: "?old \<noteq> []"
    then have "last ?old \<in> set ?old" by (rule last_in_set)
    then have "last ?old \<le> lastRequestTime w" using le by auto
    then show "last ?old + MIN_REQUEST_INTERVAL \<le> issued ?e" using ge by simp
  qed
  then have "spaced (?old @ [issued ?e])" using sp by (simp add: spaced_snoc)
  moreover have "\<forall>e\<in>set (drop b (wire w)). issued e \<le> issued ?e"
    using le ge by (auto simp add: MIN_REQUEST_INTERVAL_def)
  ultimately show ?thesis
    using b by (simp add: limiter_ok_def attempt_wire attempt_lastRequestTime)
qed

lemma limiter_ok_delay [simp]: "limiter_ok b (delay ms w) = limiter_ok b w"
  by (simp add: limiter_ok_def delay_def split: option.splits)

lemma limiter_ok_pRetry:
  "limiter_ok b w \<Longrightarrow> limiter_ok b (snd (pRetry (attempt srv u) (\<lambda>ms. delay (Some ms)) r x y n w))"
proof (induction r arbitrary: n w)
  case 0
  then show ?case by (simp add: limiter_ok_attempt)
next
  case (Suc r)
  obtain res w1 where a: "attempt srv u w = (res, w1)" by (cases "attempt srv u w")
  then have w1: "limiter_ok b w1" using limiter_ok_attempt[OF Suc.prems, of srv u] by simp
  show ?case
  proof (cases res)
    case (Inr d)
    then show ?thesis using a w1 by simp
  next
    case (Inl e)
    then show ?thesis using a w1 Suc.IH[where w="delay (Some (createTimeout x y n)) w1" and n="Suc n"]
      by simp
  qed
qed

lemma limiter_ok_fetch:
  assumes "fetchPageWithRetry srv u w = (res, w1)" and "limiter_ok b w"
  shows "limiter_ok b w1"
  using assms limiter_ok_pRetry[of b w srv u 5 2000 60000 0]
  by (simp add: fetchPageWithRetry_def)

lemma limiter_ok_save_progress [simp]: "limiter_ok b (save_progress p c w) = limiter_ok b w"
  by (simp add: limiter_ok_def save_progress_def Let_def)

lemma limiter_ok_scrape_loop:
  assumes "scrape_loop fuel srv p lim (a, c, t) w = Some (vars, why, w')" and "limiter_ok b w"
  shows "limiter_ok b w'"
  using assms
proof (induction fuel arbitrary: a c t w)
  case 0
  then show ?case by simp
next
  case (Suc n)
  from Suc.prems(1) show ?case
  proof (cases rule: scrape_loop_cases)
    case limit
    then show ?thesis using Suc.prems(2) by simp
  next
    case (failed e w1)
    then show ?thesis using limiter_ok_fetch[OF failed(2) Suc.prems(2)] by simp
  next
    case (empty d w1)
    then show ?thesis using limiter_ok_fetch[OF empty(2) Suc.prems(2)] by simp
  next
    case (last d w1)
    then show ?thesis using limiter_ok_fetch[OF last(2) Suc.prems(2)] by simp
  next
    case (more d w1)
    have "limiter_ok b (save_progress p (c + length (issues_of d)) w1)"
      using limiter_ok_fetch[OF more(2) Suc.prems(2)] by simp
    then show ?thesis using Suc.IH[OF more(5)] by simp
  qed
qed

lemma limiter_ok_scrapeProject:
  assumes "scrapeProject fuel srv cfg p w = Some (why, w')" and "limiter_ok b w"
  shows "limiter_ok b w'"
proof -
  from assms(1) obtain vars w1 where
    l: "scrape_loop fuel srv p (projectLimit cfg p) ([], cursor (progress w) p, 0) w = Some (vars, why, w1)"
    and w': "w' = w1\<lparr>raw_files := (raw_files w1)(p \<mapsto> fst vars)\<rparr>"
    by (auto simp add: scrapeProject_def split: option.splits)
  from limiter_ok_scrape_loop[OF l assms(2)] show ?thesis
    using w' by (simp add: limiter_ok_def)
qed

lemma limiter_ok_main_loop:
  assumes "main_loop fuel srv cfg ps w = Some w'" and "limiter_ok b w"
  shows "limiter_ok b w'"
  using assms
proof (induction ps arbitrary: w)
  case Nil
  then show ?case by simp
next
  case (Cons p ps)
  from Cons.prems(1) obtain why w1 where s: "scrapeProject fuel srv cfg p w = Some (why, w1)"
    and m: "main_loop fuel srv cfg ps w1 = Some w'"
    by (auto split: option.splits)
  from Cons.IH[OF m limiter_ok_scrapeProject[OF s Cons.prems(2)]] show ?case .
qed

text \<open>
  Claim C9: the requests that a process issues are at least 200 ms apart, each from the
  one before it and so any two of them; from the first to the last of K requests at
  least (K - 1) times 200 ms pass. Time is the clock of the model: a timer fires when it
  is due.
\<close>

theorem requests_are_spaced:
  assumes "run_process fuel srv cfg w = Some (Inr w')"
  shows "spaced (map issued (drop (length (wire w)) (wire w'))) \<and>
     (drop (length (wire w)) (wire w') \<noteq> [] \<longrightarrow>
        (int (length (drop (length (wire w)) (wire w'))) - 1) * MIN_REQUEST_INTERVAL
          \<le> issued (last (wire w')) - issued (wire w' ! length (wire w))) \<and>
     (\<forall>i j. i < j \<and> j < length (drop (length (wire w)) (wire w')) \<longrightarrow>
        issued (drop (length (wire w)) (wire w') ! i) + MIN_REQUEST_INTERVAL
          \<le> issued (drop (length (wire w)) (wire w') ! j))"
proof -
  from assms obtain m where m: "load_progress (progress_file w) = Inr m"
    and ml: "main_loop fuel srv cfg (PROJECTS cfg) (w\<lparr>progress := m, lastRequestTime := 0\<rparr>) = Some w'"
    by (auto simp add: run_process_def startup_def split: sum.splits)
  have "limiter_ok (length (wire w)) (w\<lparr>progress := m, lastRequestTime := 0\<rparr>)"
    by (simp add: limiter_ok_def)
  from limiter_ok_main_loop[OF ml this]
  have le: "length (wire w) \<le> length (wire w')"
    and sp: "spaced (map issued (drop (length (wire w)) (wire w')))"
    by (simp_all add: limiter_ok_def)
  show ?thesis
  proof (intro conjI impI allI)
    show "spaced (map issued (drop (length (wire w)) (wire w')))" by (rule sp)
  next
    fix i j
    assume ij: "i < j \<and> j < length (drop (length (wire w)) (wire w'))"
    then have "map issued (drop (length (wire w)) (wire w')) ! i + MIN_REQUEST_INTERVAL
        \<le> map issued (drop (length (wire w)) (wire w')) ! j"
      using sp by (intro spaced_pairwise) simp_all
    then show "issued (drop (length (wire w)) (wire w') ! i) + MIN_REQUEST_INTERVAL
          \<le> issued (drop (length (wire w)) (wire w') ! j)"
      using ij by simp
  next
    assume ne: "drop (length (wire w)) (wire w') \<noteq> []"
    then have lt: "length (wire w) < length (wire w')" by simp
    have "(int (length (map issued (drop (length (wire w)) (wire w')))) - 1) * MIN_REQUEST_INTERVAL
        \<le> last (map issued (drop (length (wire w)) (wire w')))
          - hd (map issued (drop (length (wire w)) (wire w')))"
      using sp ne by (intro spaced_span) simp_all
    moreover have "last (map issued (drop (length (wire w)) (wire w'))) = issued (last (wire w'))"
      using ne lt by (simp add: last_map last_drop)
    moreover have "hd (map issued (drop (length (wire w)) (wire w'))) = issued (wire w' ! length (wire w))"
      using ne lt by (simp add: hd_map hd_drop_conv_nth)
    ultimately show "(int (length (drop (length (wire w)) (wire w'))) - 1) * MIN_REQUEST_INTERVAL
          \<le> issued (last (wire w')) - issued (wire w' ! length (wire w))"
      by simp
  qed
qed

theorem requests_are_spaced_witness:
  "run_process 3 tail_server cfg0 resume_world = Some (Inr finished_world) \<and>
   map issued (drop (length (wire resume_world)) (wire finished_world)) = [1000000, 1000200, 1000400] \<and>
   spaced [1000000, 1000200, 1000400] \<and>
   (3 - 1) * MIN_REQUEST_INTERVAL \<le> issued (last (wire finished_world)) - issued (wire finished_world ! 0) \<and>
   issued (wire finished_world ! 0) + MIN_REQUEST_INTERVAL \<le> issued (wire finished_world ! 2)"
proof -
  have h: "run_process 3 tail_server cfg0 resume_world = Some (Inr finished_world)"
    by (simp add: run_process_def startup_def load_progress_def eval_defs cfg0_def resume_world_def
        tail_server_def finished_world_def)
  have m: "map issued (drop (length (wire resume_world)) (wire finished_world))
      = [1000000, 1000200, 1000400]"
    by (simp add: resume_world_def finished_world_def)
  have ne: "drop (length (wire resume_world)) (wire finished_world) \<noteq> []"
    by (simp add: resume_world_def finished_world_def)
  have l: "length (drop (length (wire resume_world)) (wire finished_world)) = 3"
    "length (wire resume_world) = 0" "length (wire finished_world) = 3"
    by (simp_all add: resume_world_def finished_world_def)
  note T = requests_are_spaced[OF h]
  from T m have s: "spaced [1000000, 1000200, 1000400]" by simp
  from T ne have "(int (length (drop (length (wire resume_world)) (wire finished_world))) - 1)
        * MIN_REQUEST_INTERVAL
      \<le> issued (last (wire finished_world)) - issued (wire finished_world ! length (wire resume_world))"
    by blast
  then have "(3 - 1) * MIN_REQUEST_INTERVAL
      \<le> issued (last (wire finished_world)) - issued (wire finished_world ! 0)"
    by (simp add: l)
  moreover from T have "(0::nat) < 2 \<and> 2 < length (drop (length (wire resume_world)) (wire finished_world))
      \<longrightarrow> issued (drop (length (wire resume_world)) (wire finished_world) ! 0) + MIN_REQUEST_INTERVAL
          \<le> issued (drop (length (wire resume_world)) (wire finished_world) ! 2)"
    by blast
  then have "issued (wire finished_world ! 0) + MIN_REQUEST_INTERVAL \<le> issued (wire finished_world ! 2)"
    by (simp add: l)
  ultimately show ?thesis using h m s by (intro conjI)
qed

section \<open>The wait before a retry\<close>











section \<open>The limit\<close>





lemma scrape_loop_more_fuel:
  assumes "scrape_loop n srv p lim vars w = Some r"
  shows "scrape_loop (n + k) srv p lim vars w = Some r"
  using assms
proof (induction n arbitrary: vars w)
  case 0
  then show ?case by simp
next
  case (Suc n)
  obtain a c t where vars: "vars = (a, c, t)" by (cases vars)
  from Suc.prems[unfolded vars] show ?case
  proof (cases rule: scrape_loop_cases)
    case limit
    then show ?thesis using vars by simp
  next
    case (failed e w1)
    then show ?thesis using vars by simp
  next
    case (empty d w1)
    then show ?thesis using vars by simp
  next
    case (last d w1)
    then show ?thesis using vars by (simp add: Let_def)
  next
    case (more d w1)
    from Suc.IH[OF more(5)] show ?thesis using more(1-4) vars by (simp add: Let_def)
  qed
qed


lemma cursor_save_progress [simp]: "cursor (progress (save_progress p c w)) p = c"
  by (simp add: save_progress_def cursor_def Let_def)





section \<open>The persisted cursor\<close>

lemma pages_total_append: "pages_total p (xs @ ys) = pages_total p xs + pages_total p ys"
  by (simp add: pages_total_def)

lemma pages_total_same:
  assumes "\<forall>e\<in>set new. target e = Url p c"
  shows "pages_total p new = length (concat (map (\<lambda>e. delivered (result e)) new))"
  using assms by (induction new) (simp_all add: pages_total_def)

lemma pages_total_other:
  assumes "\<forall>e\<in>set new. target e = Url p c" and "q \<noteq> p"
  shows "pages_total q new = 0"
  using assms by (induction new) (simp_all add: pages_total_def)

lemma pages_total_take_mono:
  assumes "i \<le> j"
  shows "pages_total p (take i es) \<le> pages_total p (take j es)"
proof -
  have "take j es = take i es @ take (j - i) (drop i es)"
    using assms by (metis le_add_diff_inverse take_add)
  then show ?thesis by (simp add: pages_total_append)
qed

lemma pages_total_take_le: "pages_total p (take k es) \<le> pages_total p es"
  using pages_total_take_mono[of k "length es" p es]
  by (cases "k \<le> length es") simp_all

lemma history_ok_quiet_fetch:
  assumes f: "fetchPageWithRetry srv (Url p c) w = (res, w1)"
    and q: "(case res of Inr d \<Rightarrow> issues_of d | Inl e \<Rightarrow> []) = []"
    and h: "history_ok w"
  shows "history_ok w1"
proof -
  from f obtain new where new: "wire w1 = wire w @ new" "\<forall>e\<in>set new. target e = Url p c"
    "concat (map (\<lambda>e. delivered (result e)) new) = (case res of Inr d \<Rightarrow> issues_of d | Inl e \<Rightarrow> [])"
    by (rule fetch_new_exchanges)
  have z: "pages_total r new = 0" for r
  proof (cases "r = p")
    case True
    then show ?thesis using pages_total_same[OF new(2)] new(3) q by simp
  next
    case False
    then show ?thesis using pages_total_other[OF new(2)] by simp
  qed
  have pf: "progress_file w1 = progress_file w" and wr: "writes w1 = writes w"
    using fetch_frame[OF f] by simp_all
  have 1: "\<forall>r. persisted w1 r = pages_total r (wire w1)"
    using h pf new(1) z by (simp add: history_ok_def persisted_def pages_total_append)
  have 2: "sorted (map fst (writes w1))" using h wr by (simp add: history_ok_def)
  have 3: "\<forall>(k, m)\<in>set (writes w1).
      k \<le> length (wire w1) \<and> (\<forall>r. cursor m r = pages_total r (take k (wire w1)))"
    using h wr new(1) by (auto simp add: history_ok_def)
  from 1 2 3 show ?thesis by (simp add: history_ok_def)
qed

lemma mem_ok_fetch:
  assumes "fetchPageWithRetry srv u w = (res, w1)" and "mem_ok w"
  shows "mem_ok w1"
  using assms fetch_frame[OF assms(1)] by (simp add: mem_ok_def)

lemma mem_ok_save_progress [simp]: "mem_ok (save_progress p c w)"
  by (simp add: mem_ok_def save_progress_def load_progress_def JSON_stringify_def Let_def)

lemma cursor_upd: "cursor (m(p \<mapsto> \<lparr>lastStartAt = c\<rparr>)) q = (if q = p then c else cursor m q)"
  by (simp add: cursor_def)

lemma history_ok_page:
  assumes f: "fetchPageWithRetry srv (Url p c) w = (Inr d, w1)"
    and m: "mem_ok w" and h: "history_ok w" and c: "c = cursor (progress w) p"
  shows "history_ok (save_progress p (c + length (issues_of d)) w1)"
proof -
  let ?w2 = "save_progress p (c + length (issues_of d)) w1"
  let ?m = "(progress w)(p \<mapsto> \<lparr>lastStartAt = c + length (issues_of d)\<rparr>)"
  from f obtain new where new: "wire w1 = wire w @ new" "\<forall>e\<in>set new. target e = Url p c"
    "concat (map (\<lambda>e. delivered (result e)) new) = issues_of d"
    by (rule fetch_new_exchanges) simp
  have fr: "progress w1 = progress w" "writes w1 = writes w"
    using fetch_frame[OF f] by simp_all
  have old: "cursor (progress w) r = pages_total r (wire w)" for r
    using m h by (simp add: mem_ok_def history_ok_def persisted_def)
  have tot: "cursor ?m r = pages_total r (wire w1)" for r
  proof (cases "r = p")
    case True
    then show ?thesis
      using old[of p] c new(1,3) pages_total_same[OF new(2)]
      by (simp add: cursor_upd pages_total_append)
  next
    case False
    then show ?thesis
      using old[of r] new(1) pages_total_other[OF new(2), of r]
      by (simp add: cursor_upd pages_total_append)
  qed
  have w2: "progress_file ?w2 = Some (Json_of ?m)" "wire ?w2 = wire w1"
    "writes ?w2 = writes w @ [(length (wire w1), ?m)]"
    using fr by (simp_all add: save_progress_def JSON_stringify_def Let_def)
  have 1: "\<forall>r. persisted ?w2 r = pages_total r (wire ?w2)"
    using tot w2 by (simp add: persisted_def load_progress_def)
  have le: "\<forall>(k, m')\<in>set (writes w). k \<le> length (wire w)"
    using h by (auto simp add: history_ok_def)
  have 2: "sorted (map fst (writes ?w2))"
    using h le new(1) w2 by (auto simp add: history_ok_def sorted_append)
  have 3: "\<forall>(k, m')\<in>set (writes ?w2).
      k \<le> length (wire ?w2) \<and> (\<forall>r. cursor m' r = pages_total r (take k (wire ?w2)))"
    using h new(1) w2 tot by (auto simp add: history_ok_def)
  from 1 2 3 show ?thesis by (simp add: history_ok_def)
qed

lemma history_ok_scrape_loop:
  assumes "scrape_loop fuel srv p lim (a, c, t) w = Some (vars, why, w')"
    and "mem_ok w" and "history_ok w" and "c = cursor (progress w) p"
  shows "mem_ok w' \<and> history_ok w'"
  using assms
proof (induction fuel arbitrary: a c t w)
  case 0
  then show ?case by simp
next
  case (Suc n)
  from Suc.prems(1) show ?case
  proof (cases rule: scrape_loop_cases)
    case limit
    then show ?thesis using Suc.prems by simp
  next
    case (failed e w1)
    then show ?thesis
      using mem_ok_fetch[OF failed(2) Suc.prems(2)]
        history_ok_quiet_fetch[OF failed(2) _ Suc.prems(3)] by simp
  next
    case (empty d w1)
    then show ?thesis
      using mem_ok_fetch[OF empty(2) Suc.prems(2)]
        history_ok_quiet_fetch[OF empty(2) _ Suc.prems(3)] by simp
  next
    case (last d w1)
    then show ?thesis
      using history_ok_page[OF last(2) Suc.prems(2,3,4)] by simp
  next
    case (more d w1)
    have "history_ok (save_progress p (c + length (issues_of d)) w1)"
      using history_ok_page[OF more(2) Suc.prems(2,3,4)] .
    then show ?thesis using Suc.IH[OF more(5)] by simp
  qed
qed

lemma mem_ok_raw_files [simp]: "mem_ok (w\<lparr>raw_files := x\<rparr>) = mem_ok w"
  by (simp add: mem_ok_def)

lemma history_ok_raw_files [simp]: "history_ok (w\<lparr>raw_files := x\<rparr>) = history_ok w"
  by (simp add: history_ok_def persisted_def)

lemma history_ok_scrapeProject:
  assumes "scrapeProject fuel srv cfg p w = Some (why, w')" and "mem_ok w" and "history_ok w"
  shows "mem_ok w' \<and> history_ok w'"
proof -
  from assms(1) obtain vars w1 where
    l: "scrape_loop fuel srv p (projectLimit cfg p) ([], cursor (progress w) p, 0) w = Some (vars, why, w1)"
    and w': "w' = w1\<lparr>raw_files := (raw_files w1)(p \<mapsto> fst vars)\<rparr>"
    by (auto simp add: scrapeProject_def split: option.splits)
  from history_ok_scrape_loop[OF l assms(2,3)] show ?thesis
    using w' by simp
qed

lemma history_ok_main_loop:
  assumes "main_loop fuel srv cfg ps w = Some w'" and "mem_ok w" and "history_ok w"
  shows "mem_ok w' \<and> history_ok w'"
  using assms
proof (induction ps arbitrary: w)
  case Nil
  then show ?case by simp
next
  case (Cons p ps)
  from Cons.prems(1) obtain why w1 where s: "scrapeProject fuel srv cfg p w = Some (why, w1)"
    and m: "main_loop fuel srv cfg ps w1 = Some w'"
    by (auto split: option.splits)
  from history_ok_scrapeProject[OF s Cons.prems(2,3)] Cons.IH[OF m] show ?case by simp
qed

lemma history_ok_run_process:
  assumes "run_process fuel srv cfg w = Some (Inr w')" and "history_ok w"
  shows "history_ok w'"
proof -
  from assms(1) obtain m where m: "load_progress (progress_file w) = Inr m"
    and ml: "main_loop fuel srv cfg (PROJECTS cfg) (w\<lparr>progress := m, lastRequestTime := 0\<rparr>) = Some w'"
    by (auto simp add: run_process_def startup_def split: sum.splits)
  have "mem_ok (w\<lparr>progress := m, lastRequestTime := 0\<rparr>)" using m by (simp add: mem_ok_def)
  moreover have "history_ok (w\<lparr>progress := m, lastRequestTime := 0\<rparr>)"
    using assms(2) by (simp add: history_ok_def persisted_def)
  ultimately show ?thesis using history_ok_main_loop[OF ml] by simp
qed

lemma history_ok_runs:
  assumes "runs rs w = Some w'" and "history_ok w"
  shows "history_ok w'"
  using assms
proof (induction rs arbitrary: w)
  case Nil
  then show ?case by simp
next
  case (Cons r rs)
  obtain fuel srv cfg where r: "r = (fuel, srv, cfg)" by (cases r)
  show ?case
  proof (cases "run_process fuel srv cfg w")
    case None
    then show ?thesis using Cons.prems r by simp
  next
    case (Some out)
    show ?thesis
    proof (cases out)
      case (Inl e)
      then show ?thesis using Cons.prems Cons.IH Some r by simp
    next
      case (Inr w1)
      then have "history_ok w1" using history_ok_run_process Some Cons.prems(2) by blast
      then show ?thesis using Cons.prems(1) Cons.IH Some Inr r by simp
    qed
  qed
qed

lemma history_ok_sorted_cursors:
  assumes "history_ok w"
  shows "sorted (map (\<lambda>(k, m). cursor m p) (writes w))"
proof -
  have s: "sorted_wrt (\<lambda>x y. fst x \<le> fst y) (writes w)"
    using assms by (simp add: history_ok_def sorted_map)
  have "sorted_wrt (\<lambda>x y. (case x of (k, m) \<Rightarrow> cursor m p) \<le> (case y of (k, m) \<Rightarrow> cursor m p)) (writes w)"
  proof (rule sorted_wrt_mono_rel[OF _ s])
    fix x y assume x: "x \<in> set (writes w)" and y: "y \<in> set (writes w)" and le: "fst x \<le> fst y"
    have "cursor (snd x) p = pages_total p (take (fst x) (wire w))"
      using assms x by (auto simp add: history_ok_def)
    moreover have "cursor (snd y) p = pages_total p (take (fst y) (wire w))"
      using assms y by (auto simp add: history_ok_def)
    ultimately show "(case x of (k, m) \<Rightarrow> cursor m p) \<le> (case y of (k, m) \<Rightarrow> cursor m p)"
      using pages_total_take_mono[OF le, of p "wire w"] by (simp add: case_prod_beta)
  qed
  then show ?thesis by (simp add: sorted_map)
qed

lemmas run_defs = run_process_def startup_def load_progress_def persisted_def pages_total_def

text \<open>
  Claim C6: on a disk with a clean history (a fresh disk is one), after any number of
  processes run one after another, for every project the persisted cursor is the sum of
  the record counts of all pages obtained so far, those of the earlier processes
  included; every snapshot ever written holds the sum of the pages obtained in the
  exchanges completed before its writing, so the cursor moves only after a page has
  been obtained; and the cursors of the successive snapshots never decrease, nor exceed
  the cursor persisted at the end.
\<close>

theorem cursor_is_sum_of_pages:
  assumes "history_ok w" and "runs rs w = Some w'"
  shows "(\<forall>p. persisted w' p = pages_total p (wire w'))
     \<and> (\<forall>(k, m)\<in>set (writes w').
           k \<le> length (wire w') \<and> (\<forall>p. cursor m p = pages_total p (take k (wire w'))))
     \<and> (\<forall>p. sorted (map (\<lambda>(k, m). cursor m p) (writes w')))
     \<and> (\<forall>p. \<forall>(k, m)\<in>set (writes w'). cursor m p \<le> persisted w' p)"
proof -
  have h: "history_ok w'" using history_ok_runs[OF assms(2,1)] .
  have 1: "\<forall>p. persisted w' p = pages_total p (wire w')"
    and 2: "\<forall>(k, m)\<in>set (writes w').
           k \<le> length (wire w') \<and> (\<forall>p. cursor m p = pages_total p (take k (wire w')))"
    using h by (simp_all add: history_ok_def)
  have 3: "\<forall>p. sorted (map (\<lambda>(k, m). cursor m p) (writes w'))"
    using history_ok_sorted_cursors[OF h] by simp
  have 4: "\<forall>p. \<forall>(k, m)\<in>set (writes w'). cursor m p \<le> persisted w' p"
    using 1 2 pages_total_take_le by fastforce
  from 1 2 3 4 show ?thesis by (intro conjI)
qed

theorem cursor_is_sum_of_pages_witness:
  "history_ok world0 \<and>
   runs [(3, paged, cfg_first), (3, paged, cfg_rest)] world0 \<noteq> None \<and>
   map (\<lambda>(k, m). (k, cursor m ''SPARK''))
     (writes (the (runs [(3, paged, cfg_first), (3, paged, cfg_rest)] world0))) = [(1, 2), (2, 3)] \<and>
   map (\<lambda>e. length (delivered (result e)))
     (wire (the (runs [(3, paged, cfg_first), (3, paged, cfg_rest)] world0))) = [2, 1, 0] \<and>
   persisted (the (runs [(3, paged, cfg_first), (3, paged, cfg_rest)] world0)) ''SPARK''
     = pages_total ''SPARK'' (wire (the (runs [(3, paged, cfg_first), (3, paged, cfg_rest)] world0))) \<and>
   persisted (the (runs [(3, paged, cfg_first), (3, paged, cfg_rest)] world0)) ''SPARK'' = 3"
proof -
  let ?r = "runs [(3, paged, cfg_first), (3, paged, cfg_rest)] world0"
  have h0: "history_ok world0"
    by (simp add: history_ok_def persisted_def load_progress_def pages_total_def cursor_def world0_def)
  have ne: "?r \<noteq> None"
    by (simp add: run_defs eval_defs paged_def cfg_first_def cfg_rest_def world0_def)
  then obtain w' where r: "?r = Some w'" by auto
  have a: "map (\<lambda>(k, m). (k, cursor m ''SPARK'')) (writes (the ?r)) = [(1, 2), (2, 3)]"
    by (simp add: run_defs eval_defs paged_def cfg_first_def cfg_rest_def world0_def)
  have b: "map (\<lambda>e. length (delivered (result e))) (wire (the ?r)) = [2, 1, 0]"
    by (simp add: run_defs eval_defs paged_def cfg_first_def cfg_rest_def world0_def)
  have c: "persisted (the ?r) ''SPARK'' = 3"
    by (simp add: run_defs eval_defs paged_def cfg_first_def cfg_rest_def world0_def)
  from cursor_is_sum_of_pages[OF h0 r] have "persisted w' ''SPARK'' = pages_total ''SPARK'' (wire w')"
    by blast
  then have d: "persisted (the ?r) ''SPARK'' = pages_total ''SPARK'' (wire (the ?r))"
    using r by simp
  from h0 ne a b d c show ?thesis by (intro conjI)
qed

end
